theory Spec2Isabelle
  imports Complex_Main
begin

section \<open>Data model of \<open>options_agent.py\<close>\<close>

text \<open>
  Python floats are idealised as \<^typ>\<open>real\<close>. States and primitive actions are opaque
  hashable values (type variables \<open>'s\<close> and \<open>'a\<close>); their \<open>__hash__\<close> is supplied by the
  collaborator and appears as the functions \<open>hash_state\<close> and \<open>hash_action\<close> below.
  An \<open>Option\<close> object carries its own hash and the three methods the agent calls.
  What \<open>policy\<close> returns is either a primitive action or a further \<open>Option\<close>
  (the \<open>isinstance(selected_option, Option)\<close> test of \<open>run_agent\<close>).
\<close>

datatype ('s, 'a) opt =
  Option (opt_hash: int) (initiation: "'s \<Rightarrow> bool")
         (policy: "'s \<Rightarrow> ('s, 'a) decision") (termination_prob: "'s \<Rightarrow> real")
and ('s, 'a) decision = Action 'a | SubOption "('s, 'a) opt"

text \<open>The exceptions the interpreter raises inside the agent's methods.\<close>

datatype error = UnboundLocalError | IndexError | TypeError | ValueError

text \<open>
  The environment collaborator (\<open>self.env\<close>). Its mutable internals are a value of type
  \<open>'e\<close> that \<open>reset\<close> and \<open>step\<close> take and return; \<open>is_state_terminal\<close> and
  \<open>get_available_options\<close> are queries on the state they are given.
\<close>

record ('s, 'a, 'e) environment =
  reset :: "'e \<Rightarrow> 's \<times> 'e"
  step :: "'a \<Rightarrow> 'e \<Rightarrow> ('s \<times> real \<times> bool) \<times> 'e"
  is_state_terminal :: "'s \<Rightarrow> bool"
  get_available_options :: "'s \<Rightarrow> ('s, 'a) opt list"
  hash_state :: "'s \<Rightarrow> int"
  hash_action :: "'a \<Rightarrow> int"

text \<open>The fields that \<open>OptionAgent.__init__\<close> sets (\<open>self.env\<close> is passed separately).\<close>

record ('s, 'a) agent =
  q_table :: "int \<times> int \<rightharpoonup> real"
  epsilon :: real
  gamma :: real
  macro_q_alpha :: real
  intra_option_alpha :: real
  executing_options :: "('s, 'a) opt list"
  executing_options_states :: "'s list list"
  executing_options_rewards :: "real list list"

definition init_agent :: "real \<Rightarrow> real \<Rightarrow> real \<Rightarrow> real \<Rightarrow> ('s, 'a) agent" where
  "init_agent eps macro_alpha intra_alpha gam =
     \<lparr> q_table = Map.empty, epsilon = eps, gamma = gam,
       macro_q_alpha = macro_alpha, intra_option_alpha = intra_alpha,
       executing_options = [], executing_options_states = [],
       executing_options_rewards = [] \<rparr>"

text \<open>
  The module-level generator of \<open>random\<close>: an infinite supply of outcomes and the position
  reached. \<open>random.random()\<close> reads a float, \<open>random.choice\<close> an index; each advances the
  position by one.
\<close>

record rng =
  floats :: "nat \<Rightarrow> real"
  indices :: "nat \<Rightarrow> nat"
  pos :: nat

definition random_random :: "rng \<Rightarrow> real \<times> rng" where
  "random_random g = (floats g (pos g), g\<lparr>pos := Suc (pos g)\<rparr>)"

text \<open>\<open>random.choice(seq)\<close> on a list: \<open>IndexError\<close> when it is empty.\<close>

definition random_choice :: "'x list \<Rightarrow> rng \<Rightarrow> error + ('x \<times> rng)" where
  "random_choice xs g =
     (if xs = [] then Inl IndexError
      else Inr (xs ! (indices g (pos g) mod length xs), g\<lparr>pos := Suc (pos g)\<rparr>))"

section \<open>Return computation\<close>

text \<open>
  \<open>_discounted_return\<close>: \<open>np.sum(np.multiply(rewards, gamma_exp))\<close> with
  \<open>gamma_exp[i] = gamma ** i\<close> for \<open>i = 0 .. num_rewards - 1\<close>.

  The function is modelled twice. \<open>discounted_return\<close> is the exact sum over the reals;
  the learners below use it, since their models idealise the table's floats as reals.
  \<open>discounted_return_f64\<close> further down is the same computation in binary64, operation
  by operation with the rounding of each; the properties of the return computation itself
  are stated on it.
\<close>

definition discounted_return :: "real list \<Rightarrow> real \<Rightarrow> real" where
  "discounted_return rewards gam =
     (let num_rewards = length rewards;
          gamma_exp = map (\<lambda>i. gam ^ i) [0..<num_rewards]
      in sum_list (map2 (*) rewards gamma_exp))"

subsection \<open>Binary64 arithmetic\<close>

text \<open>
  A finite binary64 number is \<open>mant * 2 ^ expo\<close> with a significand of at most 53 bits.
  The exponent range is not bounded here: overflow, subnormal numbers, signed zeros,
  infinities and NaN are outside the model. \<open>bit_length\<close> is Python's
  \<open>int.bit_length\<close>.
\<close>

datatype f64 = F64 (mant: int) (expo: int)

fun bit_length :: "nat \<Rightarrow> nat" where
  "bit_length n = (if n = 0 then 0 else Suc (bit_length (n div 2)))"

declare bit_length.simps [simp del]

definition is_f64 :: "f64 \<Rightarrow> bool" where
  "is_f64 a = (bit_length (nat \<bar>mant a\<bar>) \<le> 53)"

definition f64_val :: "f64 \<Rightarrow> real" where
  "f64_val a = (if 0 \<le> expo a then of_int (mant a) * 2 ^ nat (expo a)
                else of_int (mant a) / 2 ^ nat (- expo a))"









section \<open>Value Table\<close>

text \<open>\<open>self.q_table.get(key, 0)\<close>: a missing key reads as 0.\<close>

definition q_get :: "(int \<times> int \<rightharpoonup> real) \<Rightarrow> int \<times> int \<Rightarrow> real" where
  "q_get q k = (case q k of None \<Rightarrow> 0 | Some v \<Rightarrow> v)"

text \<open>The builtin \<open>max\<close> on a list: \<open>ValueError\<close> on the empty one.\<close>

fun py_max :: "real list \<Rightarrow> error + real" where
  "py_max [] = Inl ValueError"
| "py_max (x # xs) = Inr (fold max xs x)"

text \<open>\<open>hash\<close> of what a policy returns: an action or an \<open>Option\<close>.\<close>

fun hash_decision :: "('s, 'a, 'e) environment \<Rightarrow> ('s, 'a) decision \<Rightarrow> int" where
  "hash_decision env (Action a) = hash_action env a"
| "hash_decision env (SubOption o') = opt_hash o'"

section \<open>Macro-Q Learner\<close>

text \<open>
  The \<open>while len(state_trajectory) > 1\<close> loop of \<open>macro_q_learn\<close>. The local variable
  \<open>q_values\<close> is \<open>None\<close> while it is unbound: the \<open>if\<close> branch assigns it, the
  \<open>else\<close> branch appends to it, which raises \<open>UnboundLocalError\<close> when nothing was
  assigned before. \<open>rewards.pop(0)\<close> raises \<open>IndexError\<close> on an empty list.
\<close>

fun macro_q_loop ::
  "('s, 'a, 'e) environment \<Rightarrow> 's \<Rightarrow> ('s, 'a) opt \<Rightarrow> real list option \<Rightarrow>
   's list \<Rightarrow> real list \<Rightarrow> ('s, 'a) agent \<Rightarrow> error + ('s, 'a) agent" where
  "macro_q_loop env termination_state option q_values (initiation_state # s # ss) rewards ag =
     (let old_value = q_get (q_table ag) (hash_state env initiation_state, opt_hash option);
          discounted_sum_of_rewards = discounted_return rewards (gamma ag);
          assigned =
            (if \<not> is_state_terminal env termination_state
             then Inr (map (\<lambda>o'. q_get (q_table ag) (hash_state env termination_state, opt_hash o'))
                        (get_available_options env termination_state))
             else (case q_values of
                     None \<Rightarrow> Inl UnboundLocalError
                   | Some qs \<Rightarrow> Inr (qs @ [0])))
      in case assigned of
           Inl err \<Rightarrow> Inl err
         | Inr qs \<Rightarrow>
             (case py_max qs of
                Inl err \<Rightarrow> Inl err
              | Inr m \<Rightarrow>
                  (let ag' = ag\<lparr>q_table := (q_table ag)
                         ((hash_state env initiation_state, opt_hash option) \<mapsto>
                            old_value + macro_q_alpha ag *
                              (discounted_sum_of_rewards + gamma ag ^ length rewards * m - old_value))\<rparr>
                   in case rewards of
                        [] \<Rightarrow> Inl IndexError
                      | r # rewards' \<Rightarrow>
                          macro_q_loop env termination_state option (Some qs) (s # ss) rewards' ag')))"
| "macro_q_loop env termination_state option q_values state_trajectory rewards ag = Inr ag"

text \<open>\<open>macro_q_learn\<close>: \<open>state_trajectory[-1]\<close> raises \<open>IndexError\<close> on an empty trajectory.\<close>

definition macro_q_learn ::
  "('s, 'a, 'e) environment \<Rightarrow> ('s, 'a) agent \<Rightarrow> 's list \<Rightarrow> real list \<Rightarrow> ('s, 'a) opt \<Rightarrow>
   error + ('s, 'a) agent" where
  "macro_q_learn env ag state_trajectory rewards option =
     (if state_trajectory = [] then Inl IndexError
      else macro_q_loop env (last state_trajectory) option None state_trajectory rewards ag)"

section \<open>Intra-Option Learner\<close>

text \<open>
  The \<open>for other_option in self.env.get_available_options(initiation_state)\<close> loop, over
  the options still to visit.
\<close>

fun intra_option_for ::
  "('s, 'a, 'e) environment \<Rightarrow> 's \<Rightarrow> 's \<Rightarrow> real list \<Rightarrow> ('s, 'a) opt \<Rightarrow>
   ('s, 'a) opt list \<Rightarrow> ('s, 'a) agent \<Rightarrow> error + ('s, 'a) agent" where
  "intra_option_for env initiation_state termination_state rewards executed_option [] ag = Inr ag"
| "intra_option_for env initiation_state termination_state rewards executed_option
     (other_option # others) ag =
     (if initiation other_option initiation_state \<and>
         hash_decision env (policy executed_option initiation_state) = opt_hash executed_option
      then
        (let old_value = q_get (q_table ag) (hash_state env initiation_state, opt_hash other_option);
             discounted_sum_of_rewards = discounted_return rewards (gamma ag)
         in case py_max (map (\<lambda>o'. q_get (q_table ag) (hash_state env termination_state, opt_hash o'))
                           (get_available_options env termination_state)) of
              Inl err \<Rightarrow> Inl err
            | Inr m \<Rightarrow>
                (let next_q_terminates = termination_prob other_option termination_state * m;
                     next_q_continues = (1 - termination_prob other_option termination_state) *
                       q_get (q_table ag) (hash_state env termination_state, opt_hash other_option);
                     ag' = ag\<lparr>q_table := (q_table ag)
                       ((hash_state env termination_state, opt_hash other_option) \<mapsto>
                          old_value + intra_option_alpha ag *
                            (discounted_sum_of_rewards +
                             gamma ag ^ length rewards * (next_q_continues + next_q_terminates) -
                             old_value))\<rparr>
                 in intra_option_for env initiation_state termination_state rewards executed_option
                      others ag'))
      else intra_option_for env initiation_state termination_state rewards executed_option
             others ag)"

text \<open>The \<open>while len(state_trajectory) > 1\<close> loop of \<open>intra_option_learn\<close>.\<close>

fun intra_option_loop ::
  "('s, 'a, 'e) environment \<Rightarrow> 's \<Rightarrow> ('s, 'a) opt \<Rightarrow> 's list \<Rightarrow> real list \<Rightarrow>
   ('s, 'a) agent \<Rightarrow> error + ('s, 'a) agent" where
  "intra_option_loop env termination_state executed_option (initiation_state # s # ss) rewards ag =
     (case intra_option_for env initiation_state termination_state rewards executed_option
             (get_available_options env initiation_state) ag of
        Inl err \<Rightarrow> Inl err
      | Inr ag' \<Rightarrow>
          (case rewards of
             [] \<Rightarrow> Inl IndexError
           | r # rewards' \<Rightarrow>
               intra_option_loop env termination_state executed_option (s # ss) rewards' ag'))"
| "intra_option_loop env termination_state executed_option state_trajectory rewards ag = Inr ag"

definition intra_option_learn ::
  "('s, 'a, 'e) environment \<Rightarrow> ('s, 'a) agent \<Rightarrow> 's list \<Rightarrow> real list \<Rightarrow> ('s, 'a) opt \<Rightarrow>
   error + ('s, 'a) agent" where
  "intra_option_learn env ag state_trajectory rewards executed_option =
     (if state_trajectory = [] then Inl IndexError
      else intra_option_loop env (last state_trajectory) executed_option
             state_trajectory rewards ag)"

section \<open>Selector\<close>

text \<open>
  \<open>select_action\<close>. In the greedy branch \<open>random.choice\<close> is handed a generator
  expression; \<open>random.choice\<close> takes \<open>len\<close> of its argument first, which a generator does
  not have, so the call raises \<open>TypeError\<close> before anything is drawn or compared.
\<close>

definition select_action ::
  "('s, 'a, 'e) environment \<Rightarrow> ('s, 'a) agent \<Rightarrow> 's \<Rightarrow> rng \<Rightarrow>
   error + (('s, 'a) decision \<times> rng)" where
  "select_action env ag state g =
     (if length (executing_options ag) = 0 then
        (let available_options = get_available_options env state;
             (u, g1) = random_random g
         in if u < epsilon ag then
              (case random_choice available_options g1 of
                 Inl err \<Rightarrow> Inl err
               | Inr (chosen, g2) \<Rightarrow> Inr (SubOption chosen, g2))
            else
              (let q_values = map (\<lambda>o'. q_get (q_table ag) (hash_state env state, opt_hash o'))
                                available_options
               in Inl TypeError))
      else Inr (policy (last (executing_options ag)) state, g))"

section \<open>Episode Driver\<close>

text \<open>
  The three appends of \<open>run_agent\<close> when the selected decision is an \<open>Option\<close>: the
  option, a fresh one-state trajectory and an empty reward list go on top of the stack.
\<close>

definition push_option :: "('s, 'a) agent \<Rightarrow> ('s, 'a) opt \<Rightarrow> 's \<Rightarrow> ('s, 'a) agent" where
  "push_option ag selected_option state =
     ag\<lparr>executing_options := executing_options ag @ [selected_option],
        executing_options_states := executing_options_states ag @ [[state]],
        executing_options_rewards := executing_options_rewards ag @ [[]]\<rparr>"

text \<open>
  The \<open>for i in range(len(self.executing_options))\<close> loop after a primitive step, over the
  indices still to visit; indexing a shorter parallel list raises \<open>IndexError\<close>.
\<close>

fun record_step :: "nat list \<Rightarrow> 's \<Rightarrow> real \<Rightarrow> ('s, 'a) agent \<Rightarrow> error + ('s, 'a) agent" where
  "record_step [] next_state reward ag = Inr ag"
| "record_step (i # rest) next_state reward ag =
     (if i < length (executing_options_states ag) then
        (let ag1 = ag\<lparr>executing_options_states := (executing_options_states ag)
                      [i := executing_options_states ag ! i @ [next_state]]\<rparr>
         in if i < length (executing_options_rewards ag1) then
              record_step rest next_state reward
                (ag1\<lparr>executing_options_rewards := (executing_options_rewards ag1)
                      [i := executing_options_rewards ag1 ! i @ [reward]]\<rparr>)
            else Inl IndexError)
      else Inl IndexError)"

text \<open>
  The body shared by the two popping loops: both learners run on the top entry
  (\<open>[-1]\<close> of each list, \<open>IndexError\<close> when empty), then the three lists are popped.
\<close>

definition learn_and_pop :: "('s, 'a, 'e) environment \<Rightarrow> ('s, 'a) agent \<Rightarrow> error + ('s, 'a) agent" where
  "learn_and_pop env ag =
     (if executing_options_states ag = [] then Inl IndexError
      else if executing_options_rewards ag = [] then Inl IndexError
      else if executing_options ag = [] then Inl IndexError
      else
        (case macro_q_learn env ag (last (executing_options_states ag))
                (last (executing_options_rewards ag)) (last (executing_options ag)) of
           Inl err \<Rightarrow> Inl err
         | Inr ag1 \<Rightarrow>
             (case intra_option_learn env ag1 (last (executing_options_states ag1))
                     (last (executing_options_rewards ag1)) (last (executing_options ag1)) of
                Inl err \<Rightarrow> Inl err
              | Inr ag2 \<Rightarrow>
                  Inr (ag2\<lparr>executing_options_states := butlast (executing_options_states ag2),
                           executing_options_rewards := butlast (executing_options_rewards ag2),
                           executing_options := butlast (executing_options ag2)\<rparr>))))"

text \<open>\<open>_roll_termination\<close>: one draw; the option continues only when the draw is larger.\<close>

definition roll_termination :: "('s, 'a) opt \<Rightarrow> 's \<Rightarrow> rng \<Rightarrow> bool \<times> rng" where
  "roll_termination option state g =
     (let (u, g') = random_random g
      in if u > termination_prob option state then (False, g') else (True, g'))"

text \<open>The learners write the Value Table only; the stack lists stay as they are.\<close>

lemma macro_q_loop_stack:
  "macro_q_loop env t option qv states rewards ag = Inr ag' \<Longrightarrow>
   executing_options ag' = executing_options ag \<and>
   executing_options_states ag' = executing_options_states ag \<and>
   executing_options_rewards ag' = executing_options_rewards ag"
proof (induction env t option qv states rewards ag rule: macro_q_loop.induct)
  case (1 env t option qv s0 s ss rewards ag)
  then show ?case
    by (auto simp: Let_def split: if_splits sum.splits list.splits option.splits)
qed simp_all

lemma intra_option_for_stack:
  "intra_option_for env s0 t rewards ex others ag = Inr ag' \<Longrightarrow>
   executing_options ag' = executing_options ag \<and>
   executing_options_states ag' = executing_options_states ag \<and>
   executing_options_rewards ag' = executing_options_rewards ag"
proof (induction others arbitrary: ag)
  case Nil
  then show ?case by simp
next
  case (Cons other others)
  then show ?case
    by (auto simp: Let_def split: if_splits sum.splits)
qed

lemma intra_option_loop_stack:
  "intra_option_loop env t ex states rewards ag = Inr ag' \<Longrightarrow>
   executing_options ag' = executing_options ag \<and>
   executing_options_states ag' = executing_options_states ag \<and>
   executing_options_rewards ag' = executing_options_rewards ag"
proof (induction env t ex states rewards ag rule: intra_option_loop.induct)
  case (1 env t ex s0 s ss rewards ag)
  then show ?case
    by (auto split: sum.splits list.splits dest!: intra_option_for_stack)
qed simp_all

lemma learn_and_pop_stack:
  assumes "learn_and_pop env ag = Inr ag'"
  shows "executing_options ag' = butlast (executing_options ag) \<and>
         executing_options_states ag' = butlast (executing_options_states ag) \<and>
         executing_options_rewards ag' = butlast (executing_options_rewards ag) \<and>
         executing_options ag \<noteq> []"
  using assms
  by (auto simp: learn_and_pop_def macro_q_learn_def intra_option_learn_def
           split: if_splits sum.splits
           dest!: macro_q_loop_stack intra_option_loop_stack)

text \<open>
  The \<open>while self._roll_termination(self.executing_options[-1], next_state)\<close> loop.
  The condition reads the top of the stack before every draw.
\<close>

function termination_cascade ::
  "('s, 'a, 'e) environment \<Rightarrow> 's \<Rightarrow> ('s, 'a) agent \<Rightarrow> rng \<Rightarrow> error + (('s, 'a) agent \<times> rng)" where
  "termination_cascade env next_state ag g =
     (if executing_options ag = [] then Inl IndexError
      else
        (case roll_termination (last (executing_options ag)) next_state g of
           (False, g') \<Rightarrow> Inr (ag, g')
         | (True, g') \<Rightarrow>
             (case learn_and_pop env ag of
                Inl err \<Rightarrow> Inl err
              | Inr ag' \<Rightarrow> termination_cascade env next_state ag' g')))"
  by pat_completeness auto
termination
  by (relation "measure (\<lambda>(env, next_state, ag, g). length (executing_options ag))")
     (auto dest!: learn_and_pop_stack simp: less_Suc_eq_le Suc_pred)

text \<open>The \<open>while len(self.executing_options) > 0\<close> loop taken when the step was terminal.\<close>

function unwind_stack :: "('s, 'a, 'e) environment \<Rightarrow> ('s, 'a) agent \<Rightarrow> error + ('s, 'a) agent" where
  "unwind_stack env ag =
     (if length (executing_options ag) > 0 then
        (case learn_and_pop env ag of
           Inl err \<Rightarrow> Inl err
         | Inr ag' \<Rightarrow> unwind_stack env ag')
      else Inr ag)"
  by pat_completeness auto
termination
  by (relation "measure (\<lambda>(env, ag). length (executing_options ag))")
     (auto dest!: learn_and_pop_stack)

text \<open>
  One pass through the body of \<open>while not terminal\<close>: the agent, the environment's
  internals, the generator, the current state and \<open>episode_rewards[episode]\<close> go in and
  come out, with the new value of \<open>terminal\<close>.
\<close>

text \<open>
  Both loops unfold by their defining equation only where a proof asks for it.
\<close>

declare termination_cascade.simps [simp del]
declare unwind_stack.simps [simp del]

definition episode_step ::
  "('s, 'a, 'e) environment \<Rightarrow> ('s, 'a) agent \<Rightarrow> 'e \<Rightarrow> rng \<Rightarrow> 's \<Rightarrow> real list \<Rightarrow>
   error + (('s, 'a) agent \<times> 'e \<times> rng \<times> 's \<times> real list \<times> bool)" where
  "episode_step env ag e g state episode_reward =
     (case select_action env ag state g of
        Inl err \<Rightarrow> Inl err
      | Inr (selected_option, g1) \<Rightarrow>
          (case selected_option of
             SubOption opt' \<Rightarrow> Inr (push_option ag opt' state, e, g1, state, episode_reward, False)
           | Action a \<Rightarrow>
               (case step env a e of
                  ((next_state, reward, terminal), e1) \<Rightarrow>
                    (case record_step [0..<length (executing_options ag)] next_state reward ag of
                       Inl err \<Rightarrow> Inl err
                     | Inr ag1 \<Rightarrow>
                         (case termination_cascade env next_state ag1 g1 of
                            Inl err \<Rightarrow> Inl err
                          | Inr (ag2, g2) \<Rightarrow>
                              if terminal then
                                (case unwind_stack env ag2 of
                                   Inl err \<Rightarrow> Inl err
                                 | Inr ag3 \<Rightarrow>
                                     Inr (ag3, e1, g2, next_state, episode_reward @ [reward], True))
                              else Inr (ag2, e1, g2, next_state, episode_reward @ [reward], False))))))"

text \<open>
  The \<open>while not terminal\<close> loop. It need not end, so the result is an \<open>option\<close>:
  \<open>None\<close> is an episode that runs forever.
\<close>

partial_function (option) episode_loop ::
  "('s, 'a, 'e) environment \<Rightarrow> ('s, 'a) agent \<Rightarrow> 'e \<Rightarrow> rng \<Rightarrow> 's \<Rightarrow> real list \<Rightarrow>
   (error + (('s, 'a) agent \<times> 'e \<times> rng \<times> real list)) option" where
  "episode_loop env ag e g state episode_reward =
     (case episode_step env ag e g state episode_reward of
        Inl err \<Rightarrow> Some (Inl err)
      | Inr (ag', e', g', state', episode_reward', terminal) \<Rightarrow>
          if terminal then Some (Inr (ag', e', g', episode_reward'))
          else episode_loop env ag' e' g' state' episode_reward')"

text \<open>The \<open>for episode in range(num_episodes)\<close> loop, and \<open>run_agent\<close> itself.\<close>

fun run_episodes ::
  "('s, 'a, 'e) environment \<Rightarrow> nat \<Rightarrow> ('s, 'a) agent \<Rightarrow> 'e \<Rightarrow> rng \<Rightarrow>
   (error + (real list list \<times> ('s, 'a) agent \<times> 'e \<times> rng)) option" where
  "run_episodes env 0 ag e g = Some (Inr ([], ag, e, g))"
| "run_episodes env (Suc n) ag e g =
     (case reset env e of
        (state, e1) \<Rightarrow>
          (case episode_loop env ag e1 g state [] of
             None \<Rightarrow> None
           | Some (Inl err) \<Rightarrow> Some (Inl err)
           | Some (Inr (ag', e', g', episode_reward)) \<Rightarrow>
               (case run_episodes env n ag' e' g' of
                  None \<Rightarrow> None
                | Some (Inl err) \<Rightarrow> Some (Inl err)
                | Some (Inr (episode_rewards, ag'', e'', g'')) \<Rightarrow>
                    Some (Inr (episode_reward # episode_rewards, ag'', e'', g'')))))"

definition run_agent ::
  "('s, 'a, 'e) environment \<Rightarrow> int \<Rightarrow> ('s, 'a) agent \<Rightarrow> 'e \<Rightarrow> rng \<Rightarrow>
   (error + (real list list \<times> ('s, 'a) agent \<times> 'e \<times> rng)) option" where
  "run_agent env num_episodes ag e g = run_episodes env (nat num_episodes) ag e g"

section \<open>Propositions stated in the words of the specification\<close>

text \<open>
  The Macro-Q backup of section 4.4 for suffix start \<open>k\<close> of the trajectory
  \<open>s_0 .. s_n\<close>, \<open>r_0 .. r_(n-1)\<close>.
\<close>

definition macro_q_update_spec ::
  "('s, 'a, 'e) environment \<Rightarrow> 's list \<Rightarrow> real list \<Rightarrow> ('s, 'a) opt \<Rightarrow> nat \<Rightarrow>
   ('s, 'a) agent \<Rightarrow> ('s, 'a) agent" where
  "macro_q_update_spec env states rewards option k ag =
     (let n = length rewards;
          s_k = states ! k;
          s_n = states ! n;
          old = q_get (q_table ag) (hash_state env s_k, opt_hash option);
          G = discounted_return (drop k rewards) (gamma ag);
          next_values =
            (if is_state_terminal env s_n then [0]
             else map (\<lambda>o'. q_get (q_table ag) (hash_state env s_n, opt_hash o'))
                    (get_available_options env s_n))
      in ag\<lparr>q_table := (q_table ag)
           ((hash_state env s_k, opt_hash option) \<mapsto>
              old + macro_q_alpha ag * (G + gamma ag ^ (n - k) * Max (set next_values) - old))\<rparr>)"

text \<open>
  The intra-option backup of section 4.5 for suffix start \<open>k\<close> and a qualifying option
  \<open>other\<close>: the old value is read at \<open>(s_n, other)\<close> and the result is stored there.
\<close>

definition intra_option_update_spec ::
  "('s, 'a, 'e) environment \<Rightarrow> 's list \<Rightarrow> real list \<Rightarrow> ('s, 'a) opt \<Rightarrow> nat \<Rightarrow>
   ('s, 'a) agent \<Rightarrow> ('s, 'a) agent" where
  "intra_option_update_spec env states rewards other k ag =
     (let n = length rewards;
          s_n = states ! n;
          old = q_get (q_table ag) (hash_state env s_n, opt_hash other);
          G = discounted_return (drop k rewards) (gamma ag);
          terminate_term = termination_prob other s_n *
            Max (set (map (\<lambda>o'. q_get (q_table ag) (hash_state env s_n, opt_hash o'))
                       (get_available_options env s_n)));
          continue_term = (1 - termination_prob other s_n) *
            q_get (q_table ag) (hash_state env s_n, opt_hash other)
      in ag\<lparr>q_table := (q_table ag)
           ((hash_state env s_n, opt_hash other) \<mapsto>
              old + intra_option_alpha ag *
                (G + gamma ag ^ (n - k) * (continue_term + terminate_term) - old))\<rparr>)"

text \<open>
  The shape of the Execution Stack (section 3): the three parallel lists have the same
  length, every recorded state list is one longer than its reward list, and going up the
  stack the trajectories do not get longer. Which option sits where, and when it was
  started, is the subject of \<open>start_ordered\<close> below.
\<close>

definition stack_inv :: "('s, 'a) agent \<Rightarrow> bool" where
  "stack_inv ag =
     (length (executing_options_states ag) = length (executing_options ag) \<and>
      length (executing_options_rewards ag) = length (executing_options ag) \<and>
      list_all2 (\<lambda>states rewards. length states = length rewards + 1)
        (executing_options_states ag) (executing_options_rewards ag) \<and>
      sorted_wrt (\<lambda>older newer. length newer \<le> length older) (executing_options_states ag))"

text \<open>
  Start order. The agent keeps no record of when an option was started, so the runs of
  the stack are described with one: \<open>stack_run env ag starts now\<close> holds when the agent
  state \<open>ag\<close> is reached from an empty stack by pushes, primitive-step bookkeeping and
  learn-and-pop steps, \<open>now\<close> of them being pushes or primitive steps, and \<open>starts\<close> lists,
  bottom to top, each option still executing with the state and the time at which it was
  pushed.
\<close>

record ('s, 'a) start_record =
  started_option :: "('s, 'a) opt"
  started_in :: 's
  started_at :: nat

inductive stack_run ::
  "('s, 'a, 'e) environment \<Rightarrow> ('s, 'a) agent \<Rightarrow> ('s, 'a) start_record list \<Rightarrow> nat \<Rightarrow> bool"
  for env :: "('s, 'a, 'e) environment" where
  constructed:
    "executing_options ag = [] \<Longrightarrow> executing_options_states ag = [] \<Longrightarrow>
     executing_options_rewards ag = [] \<Longrightarrow> stack_run env ag [] 0"
| pushed:
    "stack_run env ag starts now \<Longrightarrow>
     stack_run env (push_option ag option state)
       (starts @ [\<lparr>started_option = option, started_in = state, started_at = now\<rparr>]) (Suc now)"
| stepped:
    "stack_run env ag starts now \<Longrightarrow>
     record_step [0..<length (executing_options ag)] next_state reward ag = Inr ag' \<Longrightarrow>
     stack_run env ag' starts (Suc now)"
| popped:
    "stack_run env ag starts now \<Longrightarrow> learn_and_pop env ag = Inr ag' \<Longrightarrow>
     stack_run env ag' (butlast starts) now"

text \<open>
  The stack is ordered by start time, most recently started on top: position by position
  the executing options are the recorded ones, each trajectory begins with the state in
  which its option was started, and the start times increase strictly from bottom to top.
\<close>

definition start_ordered :: "('s, 'a) start_record list \<Rightarrow> nat \<Rightarrow> ('s, 'a) agent \<Rightarrow> bool" where
  "start_ordered starts now ag =
     (map started_option starts = executing_options ag \<and>
      map started_in starts = map hd (executing_options_states ag) \<and>
      sorted_wrt (<) (map started_at starts) \<and>
      list_all (\<lambda>entry. started_at entry < now) starts)"

section \<open>A small environment for concrete runs\<close>

text \<open>
  States and actions are numbers that hash to themselves. The environment walks
  \<open>0, 1, 2, 3\<close> whatever the action, pays reward 1 per step and ends in state 3. Two
  options are available everywhere: \<open>opt_a\<close> always terminates, \<open>opt_b\<close> never does.
  \<open>opt_self\<close> returns an action whose hash is the option's own hash, and \<open>opt_nested\<close>
  hands control to \<open>opt_a\<close>.
\<close>

definition opt_a :: "(nat, nat) opt" where
  "opt_a = Option 10 (\<lambda>s. True) (\<lambda>s. Action 0) (\<lambda>s. 1)"

definition opt_b :: "(nat, nat) opt" where
  "opt_b = Option 11 (\<lambda>s. True) (\<lambda>s. Action 1) (\<lambda>s. 0)"

definition opt_self :: "(nat, nat) opt" where
  "opt_self = Option 12 (\<lambda>s. True) (\<lambda>s. Action 12) (\<lambda>s. 1 / 2)"

definition opt_nested :: "(nat, nat) opt" where
  "opt_nested = Option 13 (\<lambda>s. True) (\<lambda>s. SubOption opt_a) (\<lambda>s. 0)"

definition chain_env :: "(nat, nat, nat) environment" where
  "chain_env =
     \<lparr> reset = (\<lambda>e. (0, 0)),
       step = (\<lambda>a e. ((Suc e, 1, Suc e = 3), Suc e)),
       is_state_terminal = (\<lambda>s. s = 3),
       get_available_options = (\<lambda>s. [opt_a, opt_b]),
       hash_state = int,
       hash_action = int \<rparr>"

text \<open>The agent with the constructor's default parameters, and a generator that repeats one draw.\<close>

definition fresh_agent :: "(nat, nat) agent" where
  "fresh_agent = init_agent (15 / 100) (2 / 10) (2 / 10) (9 / 10)"

definition fixed_rng :: "real \<Rightarrow> rng" where
  "fixed_rng u = \<lparr> floats = (\<lambda>n. u), indices = (\<lambda>n. 0), pos = 0 \<rparr>"

definition greedy_agent :: "(nat, nat) agent" where
  "greedy_agent = (init_agent 0 (2 / 10) (2 / 10) (9 / 10))
     \<lparr>q_table := [(0, 10) \<mapsto> 5 / 10, (0, 11) \<mapsto> 7 / 10]\<rparr>"

definition primed_agent :: "(nat, nat) agent" where
  "primed_agent = fresh_agent\<lparr>q_table := [(0, 11) \<mapsto> 1]\<rparr>"

definition running_agent :: "(nat, nat) agent" where
  "running_agent = fresh_agent
     \<lparr>executing_options := [opt_a], executing_options_states := [[0]],
      executing_options_rewards := [[]]\<rparr>"

definition nested_agent :: "(nat, nat) agent" where
  "nested_agent = fresh_agent
     \<lparr>executing_options := [opt_nested], executing_options_states := [[0]],
      executing_options_rewards := [[]]\<rparr>"

definition steady_agent :: "(nat, nat) agent" where
  "steady_agent = fresh_agent
     \<lparr>executing_options := [opt_b], executing_options_states := [[0]],
      executing_options_rewards := [[]]\<rparr>"

definition eager_agent :: "(nat, nat) agent" where
  "eager_agent = init_agent 1 (2 / 10) (2 / 10) (9 / 10)"

text \<open>
  An environment that offers no option anywhere, an agent whose parameters and table
  entries are powers of two and small integers, and the binary64 number nearest to 0.9.
\<close>

definition barren_env :: "(nat, nat, nat) environment" where
  "barren_env = chain_env\<lparr>get_available_options := (\<lambda>s. [])\<rparr>"

definition seeded_agent :: "(nat, nat) agent" where
  "seeded_agent = (init_agent (1 / 2) (1 / 2) (1 / 2) (1 / 2))
     \<lparr>q_table := [(0, 10) \<mapsto> 4, (2, 10) \<mapsto> 8, (2, 11) \<mapsto> 16]\<rparr>"

definition gamma_09 :: f64 where
  "gamma_09 = F64 8106479329266893 (- 53)"

section \<open>Properties of the return computation\<close>



text \<open>Evaluating \<open>bit_length\<close> on a numeral, bit by bit.\<close>

lemma bit_length_zero: "bit_length 0 = 0"
  by (subst bit_length.simps) simp

lemma bit_length_Suc_0: "bit_length (Suc 0) = 1"
  by (subst bit_length.simps, simp, subst bit_length.simps, simp)

lemma bit_length_One: "bit_length (numeral Num.One) = 1"
  by (simp add: bit_length_Suc_0)

lemma bit_length_Bit0: "bit_length (numeral (Num.Bit0 n)) = Suc (bit_length (numeral n))"
  by (subst bit_length.simps) simp

lemma bit_length_Bit1: "bit_length (numeral (Num.Bit1 n)) = Suc (bit_length (numeral n))"
  by (subst bit_length.simps) simp

lemmas bit_length_numeral =
  bit_length_zero bit_length_Suc_0 bit_length_One bit_length_Bit0 bit_length_Bit1

text \<open>\<open>gamma_09\<close> is a binary64 number within half a unit in the last place of 0.9.\<close>

lemma gamma_09_nearest: "is_f64 gamma_09 \<and> \<bar>f64_val gamma_09 - 9 / 10\<bar> \<le> 1 / 2 ^ 54"
  by (simp add: is_f64_def f64_val_def gamma_09_def bit_length_numeral)








section \<open>Properties of the Macro-Q Learner\<close>

lemma py_max_nonempty: "qs \<noteq> [] \<Longrightarrow> py_max qs = Inr (Max (set qs))"
  by (cases qs) (simp_all only: py_max.simps Max.set_eq_fold, simp)

text \<open>
  The loop started at suffix \<open>j\<close> of a trajectory whose last state is not terminal
  performs the updates of the specification for \<open>k = j, .., n - 1\<close>, in that order.
\<close>

lemma macro_q_loop_suffix:
  assumes len: "length states = Suc (length rewards)"
    and nonterm: "\<not> is_state_terminal env (last states)"
    and avail: "get_available_options env (last states) \<noteq> []"
  shows "j \<le> length rewards \<Longrightarrow>
     macro_q_loop env (last states) option qv (drop j states) (drop j rewards) ag =
     Inr (fold (macro_q_update_spec env states rewards option) [j..<length rewards] ag)"
proof (induction "length rewards - j" arbitrary: j ag qv)
  case 0
  then have j: "j = length rewards" by simp
  have "states \<noteq> []" using len by auto
  then have "states = butlast states @ [last states]" by simp
  moreover have "length (butlast states) = j" using len j by simp
  ultimately have "drop j states = [last states]"
    by (metis append_eq_conv_conj)
  then show ?case using j by simp
next
  case (Suc d)
  then have jlt: "j < length rewards" by simp
  have "states \<noteq> []" using len by auto
  then have last_n: "states ! length rewards = last states"
    using len by (simp add: last_conv_nth)
  have ds: "drop j states = states ! j # states ! Suc j # drop (Suc (Suc j)) states"
    using jlt len by (simp add: Cons_nth_drop_Suc)
  have dr: "drop j rewards = rewards ! j # drop (Suc j) rewards"
    using jlt by (simp add: Cons_nth_drop_Suc)
  have ds': "states ! Suc j # drop (Suc (Suc j)) states = drop (Suc j) states"
    using jlt len by (simp add: Cons_nth_drop_Suc)
  have upt: "[j..<length rewards] = j # [Suc j..<length rewards]"
    using jlt by (rule upt_conv_Cons)
  have lenr: "length (drop j rewards) = length rewards - j" by simp
  have cs: "\<And>a f. (case drop j rewards of [] \<Rightarrow> a | r # rs' \<Rightarrow> f r rs') =
                  f (rewards ! j) (drop (Suc j) rewards)"
    by (subst dr) simp
  let ?qs = "map (\<lambda>o'. q_get (q_table ag) (hash_state env (last states), opt_hash o'))
                 (get_available_options env (last states))"
  have mx: "py_max ?qs = Inr (Max (set ?qs))"
    using avail by (intro py_max_nonempty) simp
  have IH: "\<And>ag qv. macro_q_loop env (last states) option qv
                (drop (Suc j) states) (drop (Suc j) rewards) ag =
     Inr (fold (macro_q_update_spec env states rewards option) [Suc j..<length rewards] ag)"
    using Suc.hyps(1) [of "Suc j"] Suc.hyps(2) jlt by simp
  have step: "macro_q_loop env (last states) option qv (drop j states) (drop j rewards) ag =
     macro_q_loop env (last states) option (Some ?qs) (drop (Suc j) states) (drop (Suc j) rewards)
       (macro_q_update_spec env states rewards option j ag)"
    apply (subst ds)
    apply (subst macro_q_loop.simps(1))
    apply (simp only: Let_def nonterm if_True not_False_eq_True sum.case mx ds')
    apply (simp only: macro_q_update_spec_def Let_def last_n nonterm if_False)
    apply (simp only: lenr cs)
    done
  show ?case
    by (simp only: step IH upt fold_simps comp_def)
qed

text \<open>
  C7, as the code has it. For a trajectory of \<open>n + 1\<close> states and \<open>n\<close> rewards whose last
  state is not terminal and has at least one available option, \<open>macro_q_learn\<close> returns
  normally and its result is the table after exactly the \<open>n\<close> updates of the
  specification, one per suffix start \<open>k = 0 .. n - 1\<close> in this order, each with the
  discounted return of \<open>r_k .. r_(n-1)\<close> and the factor \<open>gamma ^ (n - k)\<close>. On a one-state
  trajectory it returns the agent unchanged, whatever the environment offers.
\<close>

theorem macro_q_learn_nonterminal:
  assumes "length states = Suc (length rewards)"
    and "\<not> is_state_terminal env (last states)"
    and "get_available_options env (last states) \<noteq> []"
  shows "macro_q_learn env ag states rewards option =
           Inr (fold (macro_q_update_spec env states rewards option) [0..<length rewards] ag) \<and>
         macro_q_learn env ag [s] [] option = Inr ag"
proof -
  have "states \<noteq> []" using assms(1) by auto
  then have "macro_q_learn env ag states rewards option =
      macro_q_loop env (last states) option None (drop 0 states) (drop 0 rewards) ag"
    by (simp add: macro_q_learn_def)
  also have "\<dots> = Inr (fold (macro_q_update_spec env states rewards option) [0..<length rewards] ag)"
    using assms by (intro macro_q_loop_suffix) simp_all
  finally show ?thesis by (simp add: macro_q_learn_def)
qed

lemma upt_two: "[0..<length [a, b]] = [0, Suc 0]"
  by (simp add: upt_rec)

text \<open>
  Two steps with reward 1, \<open>gamma = alpha = 1/2\<close>, and a table holding \<open>Q(0, opt_a) = 4\<close>,
  \<open>Q(2, opt_a) = 8\<close>, \<open>Q(2, opt_b) = 16\<close>: the update for \<open>k = 0\<close> stores
  \<open>4 + (1 + 1/2 + 1/4 * 16 - 4) / 2 = 19/4\<close>, the one for \<open>k = 1\<close> stores
  \<open>0 + (1 + 1/2 * 16 - 0) / 2 = 9/2\<close>, and the entries of the last state stay.
\<close>

theorem macro_q_learn_nonterminal_witness:
  "length [0, 1, 2 :: nat] = Suc (length [1, 1 :: real]) \<and>
   \<not> is_state_terminal chain_env (last [0, 1, 2]) \<and>
   get_available_options chain_env (last [0, 1, 2]) \<noteq> [] \<and>
   (case macro_q_learn chain_env seeded_agent [0, 1, 2] [1, 1] opt_a of
      Inl err \<Rightarrow> False
    | Inr ag' \<Rightarrow> q_table ag' (0, 10) = Some (19 / 4) \<and> q_table ag' (1, 10) = Some (9 / 2) \<and>
                 q_table ag' (2, 10) = Some 8 \<and> q_table ag' (2, 11) = Some 16)"
proof -
  have h1: "length [0, 1, 2 :: nat] = Suc (length [1, 1 :: real])" by simp
  have h2: "\<not> is_state_terminal chain_env (last [0, 1, 2])" by (simp add: chain_env_def)
  have h3: "get_available_options chain_env (last [0, 1, 2]) \<noteq> []" by (simp add: chain_env_def)
  show ?thesis
    using macro_q_learn_nonterminal [OF h1 h2 h3, of seeded_agent opt_a]
    by (simp add: upt_two macro_q_update_spec_def chain_env_def seeded_agent_def init_agent_def
        opt_a_def opt_b_def q_get_def discounted_return_def Let_def)
qed

text \<open>
  With a terminal last state and at least one reward step, the first pass of the loop
  takes the \<open>else\<close> branch while \<open>q_values\<close> is still unbound.
\<close>

lemma macro_q_learn_terminal_raises:
  "is_state_terminal env (last (s0 # s1 # ss)) \<Longrightarrow>
   macro_q_learn env ag (s0 # s1 # ss) rewards option = Inl UnboundLocalError"
  by (simp add: macro_q_learn_def)

text \<open>
  Outside the environment contract: a non-terminal last state without any available option
  makes \<open>max\<close> fail on the first pass.
\<close>

lemma macro_q_learn_no_options_raises:
  "\<not> is_state_terminal env (last (s0 # s1 # ss)) \<Longrightarrow>
   get_available_options env (last (s0 # s1 # ss)) = [] \<Longrightarrow>
   macro_q_learn env ag (s0 # s1 # ss) rewards option = Inl ValueError"
  by (simp add: macro_q_learn_def)

text \<open>
  One reward step into the non-terminal state 1 of an environment that offers no option
  there: \<open>max\<close> is applied to the empty list and no update is made.
\<close>

theorem macro_q_learn_no_options_counterexample:
  "length [0, 1 :: nat] = Suc (length [1 :: real]) \<and>
   \<not> is_state_terminal barren_env (last [0, 1]) \<and>
   macro_q_learn barren_env fresh_agent [0, 1] [1] opt_a = Inl ValueError"
  by (simp add: macro_q_learn_def barren_env_def chain_env_def)

text \<open>
  C1. The specification has \<open>macro_q_learn\<close> complete on a trajectory whose final state
  is terminal, bootstrapping from \<open>[0]\<close>. On the trajectory \<open>2, 3\<close> with one reward, where
  state 3 is terminal, the code raises \<open>UnboundLocalError\<close> instead and applies no update.
\<close>

theorem macro_q_learn_terminal_unbound:
  "macro_q_learn chain_env fresh_agent [2, 3] [1] opt_a = Inl UnboundLocalError"
  by (simp add: macro_q_learn_def chain_env_def)

section \<open>Properties of the Selector\<close>

lemma select_action_greedy_raises:
  "executing_options ag = [] \<Longrightarrow> \<not> floats g (pos g) < epsilon ag \<Longrightarrow>
   select_action env ag state g = Inl TypeError"
  by (simp add: select_action_def random_random_def)

lemma select_action_delegates:
  "executing_options ag \<noteq> [] \<Longrightarrow>
   select_action env ag state g = Inr (policy (last (executing_options ag)) state, g)"
  by (simp add: select_action_def)

text \<open>
  C3. The specification has the selector, with an empty stack and \<open>epsilon = 0\<close>, return the
  option with the highest value. With values 0.5 and 0.7 at state 0 the greedy branch is
  taken and the code raises \<open>TypeError\<close>: no option is returned.
\<close>

theorem select_action_greedy_type_error:
  "select_action chain_env greedy_agent 0 (fixed_rng 0) = Inl TypeError"
  by (simp add: select_action_def random_random_def greedy_agent_def init_agent_def fixed_rng_def)

section \<open>Properties of the Intra-Option Learner\<close>

text \<open>
  What one pass of the \<open>for\<close> loop does for an option that passes the test: the old value
  is read at the suffix's first state and the new value is stored at the trajectory's
  last state.
\<close>

lemma intra_option_for_single:
  assumes "initiation other_option initiation_state"
    and "hash_decision env (policy executed_option initiation_state) = opt_hash executed_option"
    and "get_available_options env termination_state \<noteq> []"
  shows "intra_option_for env initiation_state termination_state rewards executed_option
           [other_option] ag =
         Inr (ag\<lparr>q_table := (q_table ag)
           ((hash_state env termination_state, opt_hash other_option) \<mapsto>
              q_get (q_table ag) (hash_state env initiation_state, opt_hash other_option) +
              intra_option_alpha ag *
                (discounted_return rewards (gamma ag) +
                 gamma ag ^ length rewards *
                   ((1 - termination_prob other_option termination_state) *
                      q_get (q_table ag) (hash_state env termination_state, opt_hash other_option) +
                    termination_prob other_option termination_state *
                      Max (set (map (\<lambda>o'. q_get (q_table ag)
                                         (hash_state env termination_state, opt_hash o'))
                                  (get_available_options env termination_state)))) -
                 q_get (q_table ag) (hash_state env initiation_state, opt_hash other_option)))\<rparr>)"
proof -
  have "py_max (map (\<lambda>o'. q_get (q_table ag) (hash_state env termination_state, opt_hash o'))
                 (get_available_options env termination_state)) =
        Inr (Max (set (map (\<lambda>o'. q_get (q_table ag) (hash_state env termination_state, opt_hash o'))
                 (get_available_options env termination_state))))"
    using assms(3) by (intro py_max_nonempty) simp
  then show ?thesis
    using assms(1,2) by (simp add: Let_def)
qed

text \<open>
  The test of the \<open>for\<close> loop never looks at the other option's policy: when the executed
  option's own decision does not hash like the executed option, nothing is updated.
\<close>

lemma intra_option_for_no_update:
  "hash_decision env (policy executed_option initiation_state) \<noteq> opt_hash executed_option \<Longrightarrow>
   intra_option_for env initiation_state termination_state rewards executed_option others ag =
     Inr ag"
  by (induction others) simp_all

text \<open>
  C4. The specification has exactly the available options whose own policy agrees with
  the action taken updated. Executing \<open>opt_a\<close> (which picks action 0) over the states
  \<open>0, 1\<close>, the option \<open>opt_a\<close> itself is available, may start at 0 and agrees with the
  action taken, yet the table is left unchanged. Executing \<open>opt_self\<close> (which picks action
  12), the option \<open>opt_b\<close> picks a different action at state 0 and is updated all the same.
\<close>

theorem intra_option_agreement_test_ignores_other:
  "intra_option_learn chain_env fresh_agent [0, 1] [1] opt_a = Inr fresh_agent \<and>
   policy opt_b 0 \<noteq> policy opt_self 0 \<and>
   q_table fresh_agent (1, 11) = None \<and>
   (case intra_option_learn chain_env fresh_agent [0, 1] [1] opt_self of
      Inl err \<Rightarrow> False
    | Inr ag' \<Rightarrow> q_table ag' (1, 11) = Some (2 / 10))"
proof -
  have "intra_option_learn chain_env fresh_agent [0, 1] [1] opt_a = Inr fresh_agent"
    by (simp add: intra_option_learn_def chain_env_def opt_a_def opt_b_def)
  moreover have "policy opt_b 0 \<noteq> policy opt_self 0"
    by (simp add: opt_b_def opt_self_def)
  moreover have "q_table fresh_agent (1, 11) = None"
    by (simp add: fresh_agent_def init_agent_def)
  moreover have "(case intra_option_learn chain_env fresh_agent [0, 1] [1] opt_self of
      Inl err \<Rightarrow> False
    | Inr ag' \<Rightarrow> q_table ag' (1, 11) = Some (2 / 10))"
    by (simp add: intra_option_learn_def chain_env_def opt_a_def opt_b_def opt_self_def
        fresh_agent_def init_agent_def q_get_def discounted_return_def Let_def)
  ultimately show ?thesis by blast
qed

text \<open>
  The backups of the specification for \<open>opt_a\<close> and then \<open>opt_b\<close> on the same input store
  \<open>0.2\<close> at \<open>(1, opt_b)\<close>.
\<close>

lemma intra_option_spec_backup_value:
  "q_table (intra_option_update_spec chain_env [0, 1] [1] opt_b 0
              (intra_option_update_spec chain_env [0, 1] [1] opt_a 0 primed_agent)) (1, 11) =
   Some (2 / 10)"
  by (simp add: intra_option_update_spec_def chain_env_def opt_a_def opt_b_def
      primed_agent_def fresh_agent_def init_agent_def q_get_def discounted_return_def Let_def)

text \<open>
  C5. The specification has each backup read the old value at the key of the
  trajectory's last state and write it back there. With \<open>Q(0, opt_b) = 1\<close> and nothing
  stored for state 1, the backup for \<open>opt_b\<close> over the states \<open>0, 1\<close> stores
  \<open>1 + 0.2 * (1 + 0.9 * 0 - 1) = 1\<close> at \<open>(1, opt_b)\<close>: the old value came from the key
  of state 0, which itself is left as it was. Reading the old value at state 1 would have
  stored \<open>0.2\<close>.
\<close>

theorem intra_option_reads_start_writes_end:
  "q_table primed_agent (0, 11) = Some 1 \<and> q_table primed_agent (1, 11) = None \<and>
   (case intra_option_learn chain_env primed_agent [0, 1] [1] opt_self of
      Inl err \<Rightarrow> False
    | Inr ag' \<Rightarrow> q_table ag' (1, 11) = Some 1 \<and> q_table ag' (0, 11) = Some 1)"
  by (simp add: intra_option_learn_def chain_env_def opt_a_def opt_b_def opt_self_def
      primed_agent_def fresh_agent_def init_agent_def q_get_def discounted_return_def Let_def)

section \<open>Properties of the Episode Driver\<close>

text \<open>
  Under the invariant the bookkeeping loop after a primitive step cannot fail: it appends
  the new state and the reward to every entry of the stack.
\<close>

lemma record_step_upt:
  "j \<le> n \<Longrightarrow> length (executing_options_states ag) = n \<Longrightarrow>
   length (executing_options_rewards ag) = n \<Longrightarrow>
   record_step [j..<n] next_state reward ag =
     Inr (ag\<lparr>executing_options_states :=
               take j (executing_options_states ag) @
               map (\<lambda>states. states @ [next_state]) (drop j (executing_options_states ag)),
             executing_options_rewards :=
               take j (executing_options_rewards ag) @
               map (\<lambda>rewards. rewards @ [reward]) (drop j (executing_options_rewards ag))\<rparr>)"
proof (induction "n - j" arbitrary: j ag)
  case 0
  then show ?case by simp
next
  case (Suc d)
  then have jlt: "j < n" by simp
  have upt: "[j..<n] = j # [Suc j..<n]"
    using jlt by (rule upt_conv_Cons)
  let ?ag2 = "ag\<lparr>executing_options_states := (executing_options_states ag)
                  [j := executing_options_states ag ! j @ [next_state]],
                executing_options_rewards := (executing_options_rewards ag)
                  [j := executing_options_rewards ag ! j @ [reward]]\<rparr>"
  have IH: "record_step [Suc j..<n] next_state reward ?ag2 =
     Inr (?ag2\<lparr>executing_options_states :=
               take (Suc j) (executing_options_states ?ag2) @
               map (\<lambda>states. states @ [next_state]) (drop (Suc j) (executing_options_states ?ag2)),
             executing_options_rewards :=
               take (Suc j) (executing_options_rewards ?ag2) @
               map (\<lambda>rewards. rewards @ [reward]) (drop (Suc j) (executing_options_rewards ?ag2))\<rparr>)"
    using Suc.hyps(2) jlt Suc.prems by (intro Suc.hyps(1)) simp_all
  have t: "\<And>(xs :: 'x list list) v f. j < length xs \<Longrightarrow>
      take (Suc j) (xs[j := f (xs ! j)]) @ map f (drop (Suc j) (xs[j := f (xs ! j)])) =
      take j xs @ map f (drop j xs)"
    by (simp add: take_Suc_conv_app_nth Cons_nth_drop_Suc [symmetric])
  show ?case
    using jlt Suc.prems
      t [of "executing_options_states ag" "\<lambda>states. states @ [next_state]"]
      t [of "executing_options_rewards ag" "\<lambda>rewards. rewards @ [reward]"]
    by (simp add: upt IH Let_def)
qed

lemma record_step_all:
  assumes "stack_inv ag"
  shows "record_step [0..<length (executing_options ag)] next_state reward ag =
     Inr (ag\<lparr>executing_options_states :=
               map (\<lambda>states. states @ [next_state]) (executing_options_states ag),
             executing_options_rewards :=
               map (\<lambda>rewards. rewards @ [reward]) (executing_options_rewards ag)\<rparr>)"
  using assms record_step_upt [of 0 "length (executing_options ag)" ag next_state reward]
  by (simp add: stack_inv_def)

lemma trajectory_nonempty:
  assumes "list_all2 (\<lambda>states rewards. length states = length rewards + 1) xs ys"
    and "x \<in> set xs"
  shows "1 \<le> length x"
proof -
  obtain i where "i < length xs" and "xs ! i = x"
    using assms(2) by (auto simp: in_set_conv_nth)
  then have "length x = length (ys ! i) + 1"
    using assms(1) by (auto dest: list_all2_nthD)
  then show ?thesis by simp
qed

lemma stack_inv_push:
  assumes "stack_inv ag"
  shows "stack_inv (push_option ag option state)"
proof -
  have "list_all2 (\<lambda>states rewards. length states = length rewards + 1)
          (executing_options_states ag @ [[state]]) (executing_options_rewards ag @ [[]])"
    using assms by (intro list_all2_appendI) (simp_all add: stack_inv_def)
  moreover have "sorted_wrt (\<lambda>older newer. length newer \<le> length older)
          (executing_options_states ag @ [[state]])"
    using assms trajectory_nonempty [of "executing_options_states ag" "executing_options_rewards ag"]
    by (auto simp: stack_inv_def sorted_wrt_append)
  ultimately show ?thesis
    using assms by (simp add: stack_inv_def push_option_def)
qed

lemma stack_inv_record:
  assumes "stack_inv ag"
  shows "stack_inv (ag\<lparr>executing_options_states :=
               map (\<lambda>states. states @ [next_state]) (executing_options_states ag),
             executing_options_rewards :=
               map (\<lambda>rewards. rewards @ [reward]) (executing_options_rewards ag)\<rparr>)"
  using assms
  by (auto simp: stack_inv_def list_all2_conv_all_nth sorted_wrt_map)

lemma sorted_wrt_butlast: "sorted_wrt P xs \<Longrightarrow> sorted_wrt P (butlast xs)"
  by (induction xs rule: rev_induct) (simp_all add: sorted_wrt_append)

lemma list_all2_butlast: "list_all2 P xs ys \<Longrightarrow> list_all2 P (butlast xs) (butlast ys)"
  by (simp add: list_all2_conv_all_nth nth_butlast)

lemma stack_inv_pop:
  assumes "stack_inv ag" and "learn_and_pop env ag = Inr ag'"
  shows "stack_inv ag'"
  using assms(1) learn_and_pop_stack [OF assms(2)]
  by (simp add: stack_inv_def sorted_wrt_butlast list_all2_butlast)

text \<open>
  The cascade and the unwinding loop only ever shorten the stack; the cascade never returns
  with an empty one, since its condition reads the top of the stack again after every pop.
\<close>

lemma record_step_options:
  "record_step idxs next_state reward ag = Inr ag' \<Longrightarrow>
   executing_options ag' = executing_options ag"
  by (induction idxs arbitrary: ag) (auto simp: Let_def split: if_splits)

lemma termination_cascade_shrinks:
  "termination_cascade env next_state ag g = Inr (ag', g') \<Longrightarrow>
   length (executing_options ag') \<le> length (executing_options ag) \<and> executing_options ag' \<noteq> []"
proof (induction env next_state ag g rule: termination_cascade.induct)
  case (1 env next_state ag g)
  from "1.prems" have ne: "executing_options ag \<noteq> []"
    by (subst (asm) termination_cascade.simps) (simp split: if_splits)
  show ?case
  proof (cases "roll_termination (last (executing_options ag)) next_state g")
    case (Pair terminates g1)
    show ?thesis
    proof (cases terminates)
      case False
      with "1.prems" Pair ne show ?thesis
        by (subst (asm) termination_cascade.simps) simp
    next
      case True
      with "1.prems" Pair ne obtain b where
        pop: "learn_and_pop env ag = Inr b" and
        rec: "termination_cascade env next_state b g1 = Inr (ag', g')"
        by (subst (asm) termination_cascade.simps) (auto split: sum.splits)
      from "1.IH" [OF ne Pair [symmetric] eqTrueI [OF True] pop rec]
      have "length (executing_options ag') \<le> length (executing_options b) \<and>
            executing_options ag' \<noteq> []" .
      moreover have "length (executing_options b) \<le> length (executing_options ag)"
        using learn_and_pop_stack [OF pop] by simp
      ultimately show ?thesis by simp
    qed
  qed
qed

lemma unwind_stack_empties:
  "unwind_stack env ag = Inr ag' \<Longrightarrow> executing_options ag' = []"
proof (induction env ag rule: unwind_stack.induct)
  case (1 env ag)
  show ?case
  proof (cases "0 < length (executing_options ag)")
    case False
    with "1.prems" show ?thesis
      by (subst (asm) unwind_stack.simps) simp
  next
    case True
    with "1.prems" obtain b where
      pop: "learn_and_pop env ag = Inr b" and rec: "unwind_stack env b = Inr ag'"
      by (subst (asm) unwind_stack.simps) (auto split: sum.splits)
    from "1.IH" [OF True pop rec] show ?thesis .
  qed
qed

lemma termination_cascade_keeps_inv:
  "termination_cascade env next_state ag g = Inr (ag', g') \<Longrightarrow> stack_inv ag \<Longrightarrow> stack_inv ag'"
proof (induction env next_state ag g rule: termination_cascade.induct)
  case (1 env next_state ag g)
  from "1.prems"(1) have ne: "executing_options ag \<noteq> []"
    by (subst (asm) termination_cascade.simps) (simp split: if_splits)
  show ?case
  proof (cases "roll_termination (last (executing_options ag)) next_state g")
    case (Pair terminates g1)
    show ?thesis
    proof (cases terminates)
      case False
      with "1.prems" Pair ne show ?thesis
        by (subst (asm) termination_cascade.simps) simp
    next
      case True
      with "1.prems"(1) Pair ne obtain b where
        pop: "learn_and_pop env ag = Inr b" and
        rec: "termination_cascade env next_state b g1 = Inr (ag', g')"
        by (subst (asm) termination_cascade.simps) (auto split: sum.splits)
      have "stack_inv b" using "1.prems"(2) pop by (rule stack_inv_pop)
      with "1.IH" [OF ne Pair [symmetric] eqTrueI [OF True] pop rec] show ?thesis .
    qed
  qed
qed

lemma unwind_stack_keeps_inv:
  "unwind_stack env ag = Inr ag' \<Longrightarrow> stack_inv ag \<Longrightarrow> stack_inv ag'"
proof (induction env ag rule: unwind_stack.induct)
  case (1 env ag)
  show ?case
  proof (cases "0 < length (executing_options ag)")
    case False
    with "1.prems" show ?thesis
      by (subst (asm) unwind_stack.simps) simp
  next
    case True
    with "1.prems"(1) obtain b where
      pop: "learn_and_pop env ag = Inr b" and rec: "unwind_stack env b = Inr ag'"
      by (subst (asm) unwind_stack.simps) (auto split: sum.splits)
    have "stack_inv b" using "1.prems"(2) pop by (rule stack_inv_pop)
    with "1.IH" [OF True pop rec] show ?thesis .
  qed
qed

lemma episode_step_inv:
  assumes "stack_inv ag"
    and "episode_step env ag e g state ep = Inr (ag', rest)"
  shows "stack_inv ag'"
proof (cases "select_action env ag state g")
  case (Inl err)
  with assms(2) show ?thesis by (simp add: episode_step_def)
next
  case (Inr sel)
  then obtain d g1 where sel: "select_action env ag state g = Inr (d, g1)"
    by (cases sel) simp
  show ?thesis
  proof (cases d)
    case (SubOption option)
    with assms(2) sel have "ag' = push_option ag option state"
      by (auto simp: episode_step_def)
    then show ?thesis using assms(1) by (simp add: stack_inv_push)
  next
    case (Action a)
    obtain next_state reward ended e1 where st: "step env a e = ((next_state, reward, ended), e1)"
      by (metis prod.exhaust)
    from assms(2) sel Action st obtain ag1 ag2 g2 where
      rec: "record_step [0..<length (executing_options ag)] next_state reward ag = Inr ag1" and
      cas: "termination_cascade env next_state ag1 g1 = Inr (ag2, g2)" and
      fin: "(ended \<and> unwind_stack env ag2 = Inr ag') \<or> (\<not> ended \<and> ag' = ag2)"
      by (auto simp: episode_step_def split: sum.splits if_splits)
    have "stack_inv ag1"
      using rec record_step_all [OF assms(1), of next_state reward] stack_inv_record [OF assms(1)]
      by auto
    then have "stack_inv ag2"
      using cas by (auto dest: termination_cascade_keeps_inv)
    then show ?thesis
      using fin by (auto dest: unwind_stack_keeps_inv)
  qed
qed

lemma stack_inv_init: "stack_inv (init_agent eps macro_alpha intra_alpha gam)"
  by (simp add: stack_inv_def init_agent_def)

text \<open>
  Every state of a run satisfies the invariant and is ordered by start time, and the loops
  of \<open>run_agent\<close> move from one state of a run to another.
\<close>

lemma map_hd_snoc:
  assumes "list_all2 (\<lambda>states rewards. length states = length rewards + 1) xs ys"
  shows "map hd (map (\<lambda>states. states @ [s]) xs) = map hd xs"
proof -
  have "\<And>x. x \<in> set xs \<Longrightarrow> hd (x @ [s]) = hd x"
    using trajectory_nonempty [OF assms] by (fastforce simp: hd_append)
  then show ?thesis by simp
qed

lemma stack_run_inv:
  "stack_run env ag starts now \<Longrightarrow> stack_inv ag \<and> start_ordered starts now ag"
proof (induction rule: stack_run.induct)
  case (constructed ag)
  then show ?case by (simp add: stack_inv_def start_ordered_def)
next
  case (pushed ag starts now option state)
  then have inv: "stack_inv ag" and ord: "start_ordered starts now ag" by simp_all
  have "stack_inv (push_option ag option state)"
    using inv by (rule stack_inv_push)
  moreover have "start_ordered
      (starts @ [\<lparr>started_option = option, started_in = state, started_at = now\<rparr>]) (Suc now)
      (push_option ag option state)"
    using ord
    by (auto simp: start_ordered_def push_option_def sorted_wrt_append list_all_iff less_Suc_eq)
  ultimately show ?case by simp
next
  case (stepped ag starts now next_state reward ag')
  then have inv: "stack_inv ag" and ord: "start_ordered starts now ag" by simp_all
  have ag': "ag' = ag\<lparr>executing_options_states :=
               map (\<lambda>states. states @ [next_state]) (executing_options_states ag),
             executing_options_rewards :=
               map (\<lambda>rewards. rewards @ [reward]) (executing_options_rewards ag)\<rparr>"
    using stepped.hyps(2) record_step_all [OF inv, of next_state reward] by simp
  have "stack_inv ag'"
    unfolding ag' using inv by (rule stack_inv_record)
  moreover have l2: "list_all2 (\<lambda>states rewards. length states = length rewards + 1)
      (executing_options_states ag) (executing_options_rewards ag)"
    using inv by (simp add: stack_inv_def)
  have "map hd (executing_options_states ag') = map hd (executing_options_states ag)"
    unfolding ag' by (simp add: map_hd_snoc [OF l2] del: map_map)
  then have "start_ordered starts (Suc now) ag'"
    using ord by (auto simp: start_ordered_def ag' list_all_iff less_Suc_eq)
  ultimately show ?case by simp
next
  case (popped ag starts now ag')
  then have inv: "stack_inv ag" and ord: "start_ordered starts now ag" by simp_all
  note pop = learn_and_pop_stack [OF popped.hyps(2)]
  have "stack_inv ag'"
    using inv popped.hyps(2) by (rule stack_inv_pop)
  moreover have "start_ordered (butlast starts) now ag'"
    using ord pop
    by (auto simp: start_ordered_def map_butlast sorted_wrt_butlast list_all_iff
        dest: in_set_butlastD)
  ultimately show ?case by simp
qed

lemma termination_cascade_run:
  "termination_cascade env next_state ag g = Inr (ag', g') \<Longrightarrow> stack_run env ag starts now \<Longrightarrow>
   \<exists>starts'. stack_run env ag' starts' now"
proof (induction env next_state ag g arbitrary: starts rule: termination_cascade.induct)
  case (1 env next_state ag g)
  from "1.prems"(1) have ne: "executing_options ag \<noteq> []"
    by (subst (asm) termination_cascade.simps) (simp split: if_splits)
  show ?case
  proof (cases "roll_termination (last (executing_options ag)) next_state g")
    case (Pair terminates g1)
    show ?thesis
    proof (cases terminates)
      case False
      with "1.prems" Pair ne show ?thesis
        by (subst (asm) termination_cascade.simps) auto
    next
      case True
      with "1.prems"(1) Pair ne obtain b where
        pop: "learn_and_pop env ag = Inr b" and
        rec: "termination_cascade env next_state b g1 = Inr (ag', g')"
        by (subst (asm) termination_cascade.simps) (auto split: sum.splits)
      have "stack_run env b (butlast starts) now"
        using "1.prems"(2) pop by (rule stack_run.popped)
      with "1.IH" [OF ne Pair [symmetric] eqTrueI [OF True] pop rec] show ?thesis .
    qed
  qed
qed

lemma unwind_stack_run:
  "unwind_stack env ag = Inr ag' \<Longrightarrow> stack_run env ag starts now \<Longrightarrow>
   \<exists>starts'. stack_run env ag' starts' now"
proof (induction env ag arbitrary: starts rule: unwind_stack.induct)
  case (1 env ag)
  show ?case
  proof (cases "0 < length (executing_options ag)")
    case False
    with "1.prems" show ?thesis
      by (subst (asm) unwind_stack.simps) auto
  next
    case True
    with "1.prems"(1) obtain b where
      pop: "learn_and_pop env ag = Inr b" and rec: "unwind_stack env b = Inr ag'"
      by (subst (asm) unwind_stack.simps) (auto split: sum.splits)
    have "stack_run env b (butlast starts) now"
      using "1.prems"(2) pop by (rule stack_run.popped)
    with "1.IH" [OF True pop rec] show ?thesis .
  qed
qed

lemma episode_step_run:
  assumes "stack_run env ag starts now"
    and "episode_step env ag e g state ep = Inr (ag', rest)"
  shows "\<exists>starts' now'. stack_run env ag' starts' now'"
proof (cases "select_action env ag state g")
  case (Inl err)
  with assms(2) show ?thesis by (simp add: episode_step_def)
next
  case (Inr sel)
  then obtain d g1 where sel: "select_action env ag state g = Inr (d, g1)"
    by (cases sel) simp
  show ?thesis
  proof (cases d)
    case (SubOption option)
    with assms(2) sel have "ag' = push_option ag option state"
      by (auto simp: episode_step_def)
    then show ?thesis using stack_run.pushed [OF assms(1)] by blast
  next
    case (Action a)
    obtain next_state reward ended e1 where st: "step env a e = ((next_state, reward, ended), e1)"
      by (metis prod.exhaust)
    from assms(2) sel Action st obtain ag1 ag2 g2 where
      rec: "record_step [0..<length (executing_options ag)] next_state reward ag = Inr ag1" and
      cas: "termination_cascade env next_state ag1 g1 = Inr (ag2, g2)" and
      fin: "(ended \<and> unwind_stack env ag2 = Inr ag') \<or> (\<not> ended \<and> ag' = ag2)"
      by (auto simp: episode_step_def split: sum.splits if_splits)
    have "stack_run env ag1 starts (Suc now)"
      using assms(1) rec by (rule stack_run.stepped)
    then obtain starts2 where r2: "stack_run env ag2 starts2 (Suc now)"
      using termination_cascade_run [OF cas] by blast
    then show ?thesis
      using fin unwind_stack_run by blast
  qed
qed

text \<open>
  C8. In every state that pushes, primitive-step bookkeeping and termination pops lead to,
  the three stack lists have equal length, every state list is one longer than its reward
  list, and the stack is ordered by start time with the most recently started option on
  top. A push puts the option, its one-state trajectory and an empty reward list on top of
  the three lists; the bookkeeping of a primitive step cannot fail and extends every
  entry in place; a pop removes the top of all three lists; and a pass through the body
  of the episode loop that returns ends in such a state again.
\<close>

theorem stack_invariant_preserved:
  assumes "stack_run env ag starts now"
  shows "stack_inv ag \<and> start_ordered starts now ag \<and>
         executing_options (push_option ag option state) = executing_options ag @ [option] \<and>
         executing_options_states (push_option ag option state) =
           executing_options_states ag @ [[state]] \<and>
         executing_options_rewards (push_option ag option state) =
           executing_options_rewards ag @ [[]] \<and>
         stack_inv (push_option ag option state) \<and>
         record_step [0..<length (executing_options ag)] next_state reward ag =
           Inr (ag\<lparr>executing_options_states :=
                     map (\<lambda>states. states @ [next_state]) (executing_options_states ag),
                   executing_options_rewards :=
                     map (\<lambda>rewards. rewards @ [reward]) (executing_options_rewards ag)\<rparr>) \<and>
         stack_inv (ag\<lparr>executing_options_states :=
                     map (\<lambda>states. states @ [next_state]) (executing_options_states ag),
                   executing_options_rewards :=
                     map (\<lambda>rewards. rewards @ [reward]) (executing_options_rewards ag)\<rparr>) \<and>
         (\<forall>ag2. learn_and_pop env ag = Inr ag2 \<longrightarrow>
            executing_options ag2 = butlast (executing_options ag) \<and>
            executing_options_states ag2 = butlast (executing_options_states ag) \<and>
            executing_options_rewards ag2 = butlast (executing_options_rewards ag) \<and>
            stack_inv ag2) \<and>
         (\<forall>ag3 rest. episode_step env ag e g state ep = Inr (ag3, rest) \<longrightarrow>
            (\<exists>starts' now'. stack_run env ag3 starts' now'))"
proof -
  have inv: "stack_inv ag" and ord: "start_ordered starts now ag"
    using stack_run_inv [OF assms] by simp_all
  have "executing_options (push_option ag option state) = executing_options ag @ [option] \<and>
        executing_options_states (push_option ag option state) =
          executing_options_states ag @ [[state]] \<and>
        executing_options_rewards (push_option ag option state) =
          executing_options_rewards ag @ [[]]"
    by (simp add: push_option_def)
  moreover have "stack_inv (push_option ag option state)"
    using inv by (rule stack_inv_push)
  moreover note record_step_all [OF inv, of next_state reward]
  moreover have "stack_inv (ag\<lparr>executing_options_states :=
                     map (\<lambda>states. states @ [next_state]) (executing_options_states ag),
                   executing_options_rewards :=
                     map (\<lambda>rewards. rewards @ [reward]) (executing_options_rewards ag)\<rparr>)"
    using inv by (rule stack_inv_record)
  moreover have "\<forall>ag2. learn_and_pop env ag = Inr ag2 \<longrightarrow>
            executing_options ag2 = butlast (executing_options ag) \<and>
            executing_options_states ag2 = butlast (executing_options_states ag) \<and>
            executing_options_rewards ag2 = butlast (executing_options_rewards ag) \<and>
            stack_inv ag2"
    using inv by (blast dest: learn_and_pop_stack intro: stack_inv_pop)
  moreover have "\<forall>ag3 rest. episode_step env ag e g state ep = Inr (ag3, rest) \<longrightarrow>
            (\<exists>starts' now'. stack_run env ag3 starts' now')"
    using assms by (blast intro: episode_step_run)
  ultimately show ?thesis
    using inv ord by blast
qed

lemma running_agent_run:
  "stack_run chain_env running_agent
     [\<lparr>started_option = opt_a, started_in = 0, started_at = 0\<rparr>] 1"
proof -
  have "stack_run chain_env (fresh_agent :: (nat, nat) agent) [] 0"
    by (rule stack_run.constructed) (simp_all add: fresh_agent_def init_agent_def)
  then have "stack_run chain_env (push_option fresh_agent opt_a 0)
      ([] @ [\<lparr>started_option = opt_a, started_in = 0, started_at = 0\<rparr>]) (Suc 0)"
    by (rule stack_run.pushed)
  moreover have "push_option fresh_agent opt_a 0 = running_agent"
    by (simp add: push_option_def running_agent_def fresh_agent_def init_agent_def)
  ultimately show ?thesis by simp
qed

lemma running_agent_pop:
  "learn_and_pop chain_env running_agent =
     Inr (fresh_agent\<lparr>executing_options := [], executing_options_states := [],
            executing_options_rewards := []\<rparr>)"
  by (simp add: learn_and_pop_def running_agent_def macro_q_learn_def intra_option_learn_def)

text \<open>
  The stack holds \<open>opt_a\<close>, started in state 0 at time 0. Pushing \<open>opt_b\<close> puts it on top;
  a step to state 1 with reward 1 extends the trajectory of \<open>opt_a\<close>; the pop empties the
  stack.
\<close>

theorem stack_invariant_preserved_witness:
  "stack_run chain_env running_agent
     [\<lparr>started_option = opt_a, started_in = 0, started_at = 0\<rparr>] 1 \<and>
   stack_inv running_agent \<and>
   start_ordered [\<lparr>started_option = opt_a, started_in = 0, started_at = 0\<rparr>] 1 running_agent \<and>
   executing_options (push_option running_agent opt_b 0) = [opt_a, opt_b] \<and>
   executing_options_states (push_option running_agent opt_b 0) = [[0], [0]] \<and>
   executing_options_rewards (push_option running_agent opt_b 0) = [[], []] \<and>
   record_step [0..<length (executing_options running_agent)] 1 1 running_agent =
     Inr (running_agent\<lparr>executing_options_states := [[0, 1]], executing_options_rewards := [[1]]\<rparr>) \<and>
   learn_and_pop chain_env running_agent =
     Inr (fresh_agent\<lparr>executing_options := [], executing_options_states := [],
            executing_options_rewards := []\<rparr>)"
  using stack_invariant_preserved [OF running_agent_run, of opt_b 0 1 1]
    running_agent_run running_agent_pop
  by (simp add: running_agent_def)

text \<open>
  C6, as the code has it. A pass through the loop body that returns either pushed the
  option that \<open>select_action\<close> returned, on top of the stack as it was, or took a primitive
  step, after which the stack is no deeper than before. Whether the decision came from the
  top-level selection or from the policy of the option on top of the stack plays no part.
\<close>

theorem push_only_on_option_decision:
  assumes "episode_step env ag e g state ep = Inr (ag', e', g', state', ep', terminal)"
  shows "(\<exists>option g1. select_action env ag state g = Inr (SubOption option, g1) \<and>
            executing_options ag' = executing_options ag @ [option]) \<or>
         (\<exists>a g1. select_action env ag state g = Inr (Action a, g1) \<and>
            length (executing_options ag') \<le> length (executing_options ag))"
proof (cases "select_action env ag state g")
  case (Inl err)
  with assms show ?thesis by (simp add: episode_step_def)
next
  case (Inr sel)
  then obtain d g1 where sel: "select_action env ag state g = Inr (d, g1)"
    by (cases sel) simp
  show ?thesis
  proof (cases d)
    case (SubOption option)
    with assms sel have "ag' = push_option ag option state"
      by (auto simp: episode_step_def)
    then show ?thesis using sel SubOption by (simp add: push_option_def)
  next
    case (Action a)
    obtain next_state reward ended e1 where st: "step env a e = ((next_state, reward, ended), e1)"
      by (metis prod.exhaust)
    from assms sel Action st obtain ag1 ag2 g2 where
      rec: "record_step [0..<length (executing_options ag)] next_state reward ag = Inr ag1" and
      cas: "termination_cascade env next_state ag1 g1 = Inr (ag2, g2)" and
      fin: "(ended \<and> unwind_stack env ag2 = Inr ag') \<or> (\<not> ended \<and> ag' = ag2)"
      by (auto simp: episode_step_def split: sum.splits if_splits)
    have l1: "executing_options ag1 = executing_options ag"
      using rec by (rule record_step_options)
    have l2: "length (executing_options ag2) \<le> length (executing_options ag1)"
      using termination_cascade_shrinks [OF cas] by simp
    have "length (executing_options ag') \<le> length (executing_options ag2)"
      using fin by (auto dest: unwind_stack_empties)
    with l1 l2 have "length (executing_options ag') \<le> length (executing_options ag)"
      by simp
    with sel Action show ?thesis by simp
  qed
qed

text \<open>
  An option is executing (the stack holds \<open>opt_nested\<close>), the decision is obtained by
  delegating to its policy, and the pass pushes the sub-option it returns: the stack grows
  from one entry to two.
\<close>

theorem delegation_pushes_counterexample:
  "executing_options nested_agent \<noteq> [] \<and>
   select_action chain_env nested_agent 0 (fixed_rng 0) =
     Inr (policy (last (executing_options nested_agent)) 0, fixed_rng 0) \<and>
   episode_step chain_env nested_agent 0 (fixed_rng 0) 0 [] =
     Inr (push_option nested_agent opt_a 0, 0, fixed_rng 0, 0, [], False) \<and>
   length (executing_options (push_option nested_agent opt_a 0)) =
     Suc (length (executing_options nested_agent))"
  by (simp add: episode_step_def select_action_def nested_agent_def opt_nested_def push_option_def)

lemma steady_step:
  "episode_step chain_env steady_agent 0 (fixed_rng (1 / 2)) 0 [] =
     Inr (steady_agent\<lparr>executing_options_states := [[0, 1]], executing_options_rewards := [[1]]\<rparr>,
          1, (fixed_rng (1 / 2))\<lparr>pos := 1\<rparr>, 1, [1], False)"
  apply (simp add: episode_step_def select_action_def steady_agent_def opt_b_def chain_env_def)
  apply (subst termination_cascade.simps)
  apply (simp add: roll_termination_def random_random_def fixed_rng_def)
  done

theorem push_only_on_option_decision_witness:
  "episode_step chain_env steady_agent 0 (fixed_rng (1 / 2)) 0 [] =
     Inr (steady_agent\<lparr>executing_options_states := [[0, 1]], executing_options_rewards := [[1]]\<rparr>,
          1, (fixed_rng (1 / 2))\<lparr>pos := 1\<rparr>, 1, [1], False) \<and>
   select_action chain_env steady_agent 0 (fixed_rng (1 / 2)) = Inr (Action 1, fixed_rng (1 / 2)) \<and>
   length (executing_options
     (steady_agent\<lparr>executing_options_states := [[0, 1]], executing_options_rewards := [[1]]\<rparr>))
     \<le> length (executing_options steady_agent)"
proof -
  have sel: "select_action chain_env steady_agent 0 (fixed_rng (1 / 2)) =
      Inr (Action 1, fixed_rng (1 / 2))"
    by (simp add: select_action_def steady_agent_def opt_b_def)
  have "length (executing_options
     (steady_agent\<lparr>executing_options_states := [[0, 1]], executing_options_rewards := [[1]]\<rparr>))
     \<le> length (executing_options steady_agent)"
    using push_only_on_option_decision [OF steady_step] sel by auto
  with steady_step sel show ?thesis by blast
qed

text \<open>
  One episode with \<open>epsilon = 1\<close>: the first pass selects and pushes \<open>opt_a\<close>; the second
  takes its primitive action, \<open>opt_a\<close> terminates in the new, non-terminal state, both
  learners run, the stack is popped, and the loop condition indexes the empty stack.
\<close>

lemma cascade_single_option:
  "termination_cascade chain_env 1
     (running_agent\<lparr>executing_options_states := [[0, 1]], executing_options_rewards := [[1]]\<rparr>)
     (fixed_rng (1 / 2)) = Inl IndexError"
  apply (subst termination_cascade.simps)
  apply (simp add: running_agent_def roll_termination_def random_random_def fixed_rng_def opt_a_def)
  apply (simp add: learn_and_pop_def macro_q_learn_def intra_option_learn_def chain_env_def
      opt_a_def opt_b_def Let_def)
  apply (subst termination_cascade.simps)
  apply simp
  done

lemma eager_first:
  "episode_step chain_env eager_agent 0 (fixed_rng 0) 0 [] =
     Inr (push_option eager_agent opt_a 0, 0, (fixed_rng 0)\<lparr>pos := 2\<rparr>, 0, [], False)"
  by (simp add: episode_step_def select_action_def eager_agent_def init_agent_def
      random_random_def random_choice_def fixed_rng_def chain_env_def)

lemma eager_second:
  "episode_step chain_env (push_option eager_agent opt_a 0) 0 ((fixed_rng 0)\<lparr>pos := 2\<rparr>) 0 [] =
     Inl IndexError"
  apply (simp add: episode_step_def select_action_def push_option_def eager_agent_def
      init_agent_def opt_a_def)
  apply (simp add: chain_env_def)
  apply (subst termination_cascade.simps)
  apply (simp add: roll_termination_def random_random_def fixed_rng_def)
  apply (simp add: learn_and_pop_def macro_q_learn_def intra_option_learn_def
      opt_a_def opt_b_def Let_def)
  apply (subst termination_cascade.simps)
  apply simp
  done

lemma eager_episode:
  "episode_loop chain_env eager_agent 0 (fixed_rng 0) 0 [] = Some (Inl IndexError)"
  apply (subst episode_loop.simps)
  apply (simp only: eager_first sum.case prod.case if_False)
  apply (subst episode_loop.simps)
  apply (simp only: eager_second sum.case)
  done

lemma chain_env_reset: "reset chain_env e = (0, 0)"
  by (simp add: chain_env_def)

text \<open>
  C2. The specification has the cascade stop normally once the stack has become empty.
  With the single executing option \<open>opt_a\<close>, which terminates in the non-terminal state 1,
  the cascade raises \<open>IndexError\<close> after the pop; a one-episode run of \<open>run_agent\<close> that
  reaches this step ends with the same exception.
\<close>

theorem cascade_on_emptied_stack_raises:
  "termination_cascade chain_env 1
     (running_agent\<lparr>executing_options_states := [[0, 1]], executing_options_rewards := [[1]]\<rparr>)
     (fixed_rng (1 / 2)) = Inl IndexError \<and>
   run_agent chain_env 1 eager_agent 0 (fixed_rng 0) = Some (Inl IndexError)"
proof -
  have "run_agent chain_env 1 eager_agent 0 (fixed_rng 0) = Some (Inl IndexError)"
    by (simp add: run_agent_def chain_env_reset eager_episode)
  with cascade_single_option show ?thesis by blast
qed

text \<open>
  C10. With \<open>num_episodes = 0\<close>, \<open>run_agent\<close> returns the empty list; the agent (Value
  Table and Execution Stack included), the environment's internals and the random
  generator come back exactly as they went in, whatever the environment is, so neither
  \<open>reset\<close> nor \<open>step\<close> was called.
\<close>

theorem run_agent_zero_episodes:
  "run_agent env 0 ag e g = Some (Inr ([], ag, e, g))"
  by (simp add: run_agent_def)

end
